theory Spec2Isabelle
  imports Complex_Main "HOL-Library.Word"
begin

section \<open>The packet content parsers of gpglib (content\_parsers/crypt.py)\<close>

text \<open>
  The module is Python 2 (\<^verbatim>\<open>/\<close> on integers is floor division and a byte string read
  from a stream compares equal to a \<^verbatim>\<open>str\<close> literal).  Exceptions are values: every
  function that can raise returns \<open>error + 'a\<close>, with \<open>Inl\<close> the exception.
\<close>

subsection \<open>Python values and exceptions\<close>

type_synonym byte = "8 word"

text \<open>The modules imported from \<^verbatim>\<open>Crypto\<close>; the code compares them by identity.\<close>

datatype crypto_module = RSA | DSA | ElGamal | SHA | SHA256 | CAST

text \<open>
  The objects a registry key or an \<^verbatim>\<open>algorithm\<close> argument can be: one of the imported
  modules, or an integer (the numeric code of RFC 4880).
\<close>

datatype pyobj = Module crypto_module | Number int

text \<open>
  \<^item> \<open>ReadError\<close>, \<open>ByteAlignError\<close>, \<open>InterpretError\<close>: raised by the bitstring library;
    \<open>ReadError\<close> is the one for a read past the end of the data.
  \<^item> \<open>NotImplementedError typ key\<close>: raised by \<^verbatim>\<open>Mapping.__getitem__\<close> with the message
    \<^verbatim>\<open>"Haven't implemented %s : %s" % (typ, key)\<close>.
  \<^item> \<open>PGPException msg n\<close>: \<^verbatim>\<open>errors.PGPException(msg % n)\<close>, where \<open>msg\<close> holds one
    \<^verbatim>\<open>%d\<close> and \<open>n\<close> is the number put there.
  \<^item> \<open>TypeError\<close>: raised by the \<^verbatim>\<open>%\<close> operator when \<^verbatim>\<open>%d\<close> is given an object that is
    not a number.
  \<^item> \<open>KeyDecryptError\<close>: any exception of the key object's \<^verbatim>\<open>decrypt\<close>.
  \<^item> \<open>ZlibError\<close>: \<^verbatim>\<open>zlib.error\<close>, raised by \<^verbatim>\<open>zlib.decompress\<close> on data it cannot decode.
\<close>

datatype error =
    ReadError
  | ByteAlignError
  | InterpretError
  | NotImplementedError string pyobj
  | PGPException string int
  | TypeError
  | KeyDecryptError
  | ZlibError

definition and_then :: "error + 'a \<Rightarrow> ('a \<Rightarrow> error + 'b) \<Rightarrow> error + 'b" where
  "and_then r f = (case r of Inl e \<Rightarrow> Inl e | Inr x \<Rightarrow> f x)"

subsection \<open>Mappings\<close>

text \<open>
  \<^verbatim>\<open>class Mapping\<close>: a dict and the name of what it maps, with item access that raises
  on an unknown key.
\<close>

record 'v Mapping =
  map_M :: "pyobj \<rightharpoonup> 'v"
  type_M :: string

definition getitem :: "'v Mapping \<Rightarrow> pyobj \<Rightarrow> error + 'v" where
  "getitem self key =
     (if map_M self key = None then Inl (NotImplementedError (type_M self) key)
      else Inr (the (map_M self key)))"

text \<open>\<^verbatim>\<open>Algorithms.encryption\<close>, \<^verbatim>\<open>Algorithms.hashes\<close> and \<^verbatim>\<open>Algorithms.keys\<close>.\<close>

definition encryption :: "crypto_module Mapping" where
  "encryption =
     \<lparr>map_M = [Number 3 \<mapsto> CAST], type_M = ''Symmetric encryption algorithm''\<rparr>"

definition hashes :: "crypto_module Mapping" where
  "hashes = \<lparr>map_M = [Number 2 \<mapsto> SHA, Number 8 \<mapsto> SHA256], type_M = ''Hash Algorithm''\<rparr>"

definition keys :: "crypto_module Mapping" where
  "keys =
     \<lparr>map_M = [Number 1 \<mapsto> RSA, Number 2 \<mapsto> RSA, Number 3 \<mapsto> RSA,
               Number 16 \<mapsto> ElGamal, Number 17 \<mapsto> DSA],
      type_M = ''Key algorithm''\<rparr>"

text \<open>\<^verbatim>\<open>Ciphers.key_sizes\<close>.\<close>

definition key_sizes :: "nat Mapping" where
  "key_sizes = \<lparr>map_M = [Module CAST \<mapsto> 16], type_M = ''Cipher key size''\<rparr>"

text \<open>
  \<^verbatim>\<open>Compression.decompress_zlib\<close> and \<^verbatim>\<open>Compression.decompression\<close>.  The zlib library
  is not part of the repository: \<^verbatim>\<open>zlib.decompress\<close> is a parameter, a function from
  the compressed bytes and the window size to the decompressed bytes, which may raise.
  The registry holds the decompressing function itself.
\<close>

definition decompress_zlib ::
  "(byte list \<Rightarrow> int \<Rightarrow> error + byte list) \<Rightarrow> byte list \<Rightarrow> error + byte list" where
  "decompress_zlib zlib_decompress compressed = zlib_decompress compressed (- 15)"

definition decompression ::
  "(byte list \<Rightarrow> int \<Rightarrow> error + byte list) \<Rightarrow> (byte list \<Rightarrow> error + byte list) Mapping" where
  "decompression zlib_decompress =
     \<lparr>map_M = [Number 1 \<mapsto> decompress_zlib zlib_decompress], type_M = ''Decompressor''\<rparr>"

subsection \<open>Bit streams\<close>

text \<open>
  The bitstring library is not part of the repository; this is the part of its
  \<^verbatim>\<open>ConstBitStream\<close> that the module uses.  A stream is its bits, most significant bit of
  each byte first, and a read cursor \<open>pos\<close> counted in bits.
\<close>

record ConstBitStream =
  bits :: "bool list"
  pos :: nat

definition bits_of_byte :: "byte \<Rightarrow> bool list" where
  "bits_of_byte w = map (bit w) [7, 6, 5, 4, 3, 2, 1, 0]"

definition bits_of_bytes :: "byte list \<Rightarrow> bool list" where
  "bits_of_bytes xs = concat (map bits_of_byte xs)"

text \<open>The unsigned big-endian number that a run of bits spells.\<close>

definition uint_of_bits :: "bool list \<Rightarrow> nat" where
  "uint_of_bits bs = horner_sum of_bool 2 (rev bs)"

fun bytes_of_bits :: "bool list \<Rightarrow> byte list" where
  "bytes_of_bits bs =
     (if length bs < 8 then []
      else of_nat (uint_of_bits (take 8 bs)) # bytes_of_bits (drop 8 bs))"

declare bytes_of_bits.simps [simp del]

text \<open>\<^verbatim>\<open>bitstring.ConstBitStream(bytes=b)\<close>: a fresh stream over \<open>b\<close>, cursor at the start.\<close>

definition ConstBitStream_bytes :: "byte list \<Rightarrow> ConstBitStream" where
  "ConstBitStream_bytes b = \<lparr>bits = bits_of_bytes b, pos = 0\<rparr>"

text \<open>
  \<^verbatim>\<open>s.read(n)\<close> for an integer \<open>n\<close>: the next \<open>n\<close> bits, as a bitstring of their own; the
  cursor moves past them.  Asking for more bits than remain raises \<open>ReadError\<close> and leaves
  the cursor where it was.
\<close>

definition read :: "ConstBitStream \<Rightarrow> nat \<Rightarrow> error + (bool list \<times> ConstBitStream)" where
  "read s n =
     (if n > length (bits s) - pos s then Inl ReadError
      else Inr (take n (drop (pos s) (bits s)), s\<lparr>pos := pos s + n\<rparr>))"

text \<open>\<^verbatim>\<open>s.read('uint:n')\<close>: the next \<open>n\<close> bits as an unsigned big-endian integer.\<close>

definition read_uint :: "ConstBitStream \<Rightarrow> nat \<Rightarrow> error + (nat \<times> ConstBitStream)" where
  "read_uint s n = and_then (read s n) (\<lambda>(bs, s). Inr (uint_of_bits bs, s))"

text \<open>\<^verbatim>\<open>s.read('bytes:n')\<close>: the next \<open>n\<close> bytes as a byte string.\<close>

definition read_bytes :: "ConstBitStream \<Rightarrow> nat \<Rightarrow> error + (byte list \<times> ConstBitStream)" where
  "read_bytes s n = and_then (read s (8 * n)) (\<lambda>(bs, s). Inr (bytes_of_bits bs, s))"

text \<open>
  \<^verbatim>\<open>s.read('bytes')\<close>, with no length: all the bits that remain, as a byte string (the
  empty one at the end of the data).  The library refuses a remainder that is not a
  whole number of bytes.
\<close>

definition read_bytes_rest :: "ConstBitStream \<Rightarrow> error + (byte list \<times> ConstBitStream)" where
  "read_bytes_rest s =
     (let n = length (bits s) - pos s
      in if n mod 8 \<noteq> 0 then Inl InterpretError
         else and_then (read s n) (\<lambda>(bs, s). Inr (bytes_of_bits bs, s)))"

text \<open>\<^verbatim>\<open>s.bytepos\<close>: the cursor in bytes; raises unless the cursor is on a byte boundary.\<close>

definition bytepos :: "ConstBitStream \<Rightarrow> error + nat" where
  "bytepos s = (if pos s mod 8 \<noteq> 0 then Inl ByteAlignError else Inr (pos s div 8))"

text \<open>
  \<^verbatim>\<open>s.find(bs, bytealigned=True)\<close> without \<^verbatim>\<open>start\<close> or \<^verbatim>\<open>end\<close>: the search runs over the
  whole stream, from bit 0, and looks at byte boundaries only.  When \<open>bs\<close> occurs, the
  cursor is set to the start of its first occurrence; when it does not, the cursor is
  left unchanged.  (The module ignores the tuple that \<^verbatim>\<open>find\<close> returns.)
\<close>

definition find_bytealigned :: "ConstBitStream \<Rightarrow> bool list \<Rightarrow> ConstBitStream" where
  "find_bytealigned s bs =
     (case List.find (\<lambda>i. take (length bs) (drop (8 * i) (bits s)) = bs)
             [0 ..< Suc (length (bits s) div 8)] of
        None \<Rightarrow> s
      | Some i \<Rightarrow> s\<lparr>pos := 8 * i\<rparr>)"

text \<open>\<^verbatim>\<open>'0x00'\<close> as a bitstring: eight zero bits.\<close>

definition hex_00 :: "bool list" where
  "hex_00 = replicate 8 False"

text \<open>\<^verbatim>\<open>b.bytes\<close>: the bits of a bitstring as a byte string; raises unless they are whole bytes.\<close>

definition bytes :: "bool list \<Rightarrow> error + byte list" where
  "bytes bs = (if length bs mod 8 \<noteq> 0 then Inl InterpretError else Inr (bytes_of_bits bs))"

subsection \<open>MPI values\<close>

text \<open>
  \<^verbatim>\<open>Mpi.parse\<close>.  The region is a stream that the caller goes on reading, so the model
  returns it, with its cursor moved, beside the value.
\<close>

definition parse :: "ConstBitStream \<Rightarrow> error + (bool list \<times> ConstBitStream)" where
  "parse region =
     and_then (read_uint region 16) (\<lambda>(raw_mpi_length, region).
       let mpi_length = (raw_mpi_length + 7) div 8
       in read region (mpi_length * 8))"

text \<open>
  \<^verbatim>\<open>raise errors.PGPException(msg % algorithm)\<close>, where \<open>msg\<close> holds one \<^verbatim>\<open>%d\<close>: the
  exception that leaves the statement.  The message is formatted first, and \<^verbatim>\<open>%d\<close>
  accepts numbers only.
\<close>

definition raise_PGPException :: "string \<Rightarrow> pyobj \<Rightarrow> error" where
  "raise_PGPException msg algorithm =
     (case algorithm of Number n \<Rightarrow> PGPException msg n | Module m \<Rightarrow> TypeError)"

text \<open>The layouts of RSA, ElGamal and DSA keys; a tuple of MPI values is a list.\<close>

definition rsa_mpis_public :: "ConstBitStream \<Rightarrow> error + (bool list list \<times> ConstBitStream)" where
  "rsa_mpis_public region =
     and_then (parse region) (\<lambda>(n, region).
     and_then (parse region) (\<lambda>(e, region).
     Inr ([n, e], region)))"

definition rsa_mpis_private :: "ConstBitStream \<Rightarrow> error + (bool list list \<times> ConstBitStream)" where
  "rsa_mpis_private region =
     and_then (parse region) (\<lambda>(d, region).
     and_then (parse region) (\<lambda>(p, region).
     and_then (parse region) (\<lambda>(q, region).
     and_then (parse region) (\<lambda>(r, region).
     Inr ([d, p, q, r], region)))))"

definition elgamal_mpis_public :: "ConstBitStream \<Rightarrow> error + (bool list list \<times> ConstBitStream)" where
  "elgamal_mpis_public region =
     and_then (parse region) (\<lambda>(p, region).
     and_then (parse region) (\<lambda>(g, region).
     and_then (parse region) (\<lambda>(y, region).
     Inr ([p, g, y], region))))"

definition elgamal_mpis_private :: "ConstBitStream \<Rightarrow> error + (bool list list \<times> ConstBitStream)" where
  "elgamal_mpis_private region =
     and_then (parse region) (\<lambda>(x, region). Inr ([x], region))"

definition dsa_mpis_public :: "ConstBitStream \<Rightarrow> error + (bool list list \<times> ConstBitStream)" where
  "dsa_mpis_public region =
     and_then (parse region) (\<lambda>(p, region).
     and_then (parse region) (\<lambda>(q, region).
     and_then (parse region) (\<lambda>(g, region).
     and_then (parse region) (\<lambda>(y, region).
     Inr ([p, q, g, y], region)))))"

definition dsa_mpis_private :: "ConstBitStream \<Rightarrow> error + (bool list list \<times> ConstBitStream)" where
  "dsa_mpis_private region =
     and_then (parse region) (\<lambda>(x, region). Inr ([x], region))"

text \<open>
  \<^verbatim>\<open>Mpi.consume_encryption\<close>, \<^verbatim>\<open>Mpi.consume_public\<close> and \<^verbatim>\<open>Mpi.consume_private\<close>: the
  dispatch is by identity with the imported modules.  Python evaluates the elements of
  a tuple display from left to right.
\<close>

definition consume_encryption ::
  "ConstBitStream \<Rightarrow> pyobj \<Rightarrow> error + (bool list list \<times> ConstBitStream)" where
  "consume_encryption region algorithm =
     (if algorithm = Module RSA then
        and_then (parse region) (\<lambda>(m, region). Inr ([m], region))
      else if algorithm = Module ElGamal then
        and_then (parse region) (\<lambda>(a, region).
        and_then (parse region) (\<lambda>(b, region).
        Inr ([a, b], region)))
      else Inl (raise_PGPException ''Unknown mpi algorithm for encryption %d'' algorithm))"

definition consume_public ::
  "ConstBitStream \<Rightarrow> pyobj \<Rightarrow> error + (bool list list \<times> ConstBitStream)" where
  "consume_public region algorithm =
     (if algorithm = Module RSA then rsa_mpis_public region
      else if algorithm = Module ElGamal then elgamal_mpis_public region
      else if algorithm = Module DSA then dsa_mpis_public region
      else Inl (raise_PGPException ''Unknown mpi algorithm for public keys %d'' algorithm))"

definition consume_private ::
  "ConstBitStream \<Rightarrow> pyobj \<Rightarrow> error + (bool list list \<times> ConstBitStream)" where
  "consume_private region algorithm =
     (if algorithm = Module RSA then rsa_mpis_private region
      else if algorithm = Module ElGamal then elgamal_mpis_private region
      else if algorithm = Module DSA then dsa_mpis_private region
      else Inl (raise_PGPException ''Unknown mpi algorithm for secret keys %d'' algorithm))"

subsection \<open>PKCS\<close>

text \<open>
  \<^verbatim>\<open>Random.new().read(n)\<close>: the next \<open>n\<close> bytes of a fresh random generator.  The
  generator is the sequence of the bytes it is going to deliver.
\<close>

definition Random_read :: "(nat \<Rightarrow> byte) \<Rightarrow> nat \<Rightarrow> byte list" where
  "Random_read rng n = map rng [0 ..< n]"

text \<open>\<^verbatim>\<open>tuple(mpi.bytes for mpi in mpis)\<close>.\<close>

fun bytes_each :: "bool list list \<Rightarrow> error + byte list list" where
  "bytes_each [] = Inr []"
| "bytes_each (mpi # mpis) =
     and_then (bytes mpi) (\<lambda>b. and_then (bytes_each mpis) (\<lambda>bs. Inr (b # bs)))"

text \<open>
  The body of \<^verbatim>\<open>PKCS.consume\<close> up to its \<^verbatim>\<open>return\<close>: the values that \<^verbatim>\<open>region\<close>,
  \<^verbatim>\<open>padded\<close> and \<^verbatim>\<open>decrypted\<close> have when the \<^verbatim>\<open>return\<close> statement is reached.  The key
  is its \<^verbatim>\<open>decrypt\<close> method, a function from the tuple of MPI byte strings to the
  decrypted byte string, which may raise.
\<close>

definition consume_body ::
  "ConstBitStream \<Rightarrow> pyobj \<Rightarrow> (byte list list \<Rightarrow> error + byte list) \<Rightarrow> (nat \<Rightarrow> byte)
     \<Rightarrow> error + (ConstBitStream \<times> ConstBitStream \<times> byte list)" where
  "consume_body region key_algorithm key rng =
     and_then (consume_encryption region key_algorithm) (\<lambda>(mpis, region).
     and_then (bytes_each mpis) (\<lambda>mpis.
     and_then (key mpis) (\<lambda>key_output.
     let padded = ConstBitStream_bytes key_output;
         decrypted = Random_read rng 19
     in and_then (read_bytes padded 1) (\<lambda>(first, padded).
        and_then
          (if first = [0x02] then
             and_then (bytepos padded) (\<lambda>pos_before.
             let padded = find_bytealigned padded hex_00
             in and_then (bytepos padded) (\<lambda>pos_after.
                if int pos_after - int pos_before \<ge> 8 then
                  and_then (read_bytes padded 1) (\<lambda>(sep, padded).
                  and_then (read_bytes_rest padded) (\<lambda>(decrypted, padded).
                  Inr (padded, decrypted)))
                else Inr (padded, decrypted)))
           else Inr (padded, decrypted))
          (\<lambda>(padded, decrypted).
        and_then (read_bytes_rest padded) (\<lambda>(discarded, padded).
        Inr (region, padded, decrypted)))))))"

text \<open>
  \<^verbatim>\<open>PKCS.consume\<close>: the stream over \<^verbatim>\<open>decrypted\<close> that it returns, and the region, which
  the caller goes on reading.
\<close>

definition consume ::
  "ConstBitStream \<Rightarrow> pyobj \<Rightarrow> (byte list list \<Rightarrow> error + byte list) \<Rightarrow> (nat \<Rightarrow> byte)
     \<Rightarrow> error + (ConstBitStream \<times> ConstBitStream)" where
  "consume region key_algorithm key rng =
     and_then (consume_body region key_algorithm key rng) (\<lambda>(region, padded, decrypted).
     Inr (ConstBitStream_bytes decrypted, region))"

subsection \<open>The wire format of the specification\<close>

text \<open>
  An MPI on the wire, in the specification's words: a 16-bit big-endian count of bits,
  then the bytes of the number.
\<close>

definition mpi_encode :: "nat \<Rightarrow> byte list \<Rightarrow> byte list" where
  "mpi_encode n payload = [of_nat (n div 256), of_nat (n mod 256)] @ payload"

text \<open>A region that holds two MPI values, of 9 and of 8 bits.\<close>

definition two_mpis :: ConstBitStream where
  "two_mpis = ConstBitStream_bytes [0, 9, 0x01, 0xCD, 0, 8, 0xEF, 0x77]"

text \<open>
  A region that holds one MPI value of 8 bits, a key whose \<^verbatim>\<open>decrypt\<close> answers that
  value with a chosen byte string, and a random generator that counts.
\<close>

definition one_mpi :: ConstBitStream where
  "one_mpi = ConstBitStream_bytes [0, 8, 0x2A, 0xFF]"

definition fixed_key :: "byte list \<Rightarrow> byte list list \<Rightarrow> error + byte list" where
  "fixed_key out mpis = (if mpis = [[0x2A]] then Inr out else Inl KeyDecryptError)"

definition counter :: "nat \<Rightarrow> byte" where
  "counter i = of_nat i"

section \<open>Properties\<close>

subsection \<open>Bits and bytes\<close>

lemma length_bits_of_byte: "length (bits_of_byte w) = 8"
  by (simp add: bits_of_byte_def)

lemma length_bits_of_bytes: "length (bits_of_bytes xs) = 8 * length xs"
  by (induction xs) (simp_all add: bits_of_bytes_def length_bits_of_byte)

lemma bits_of_bytes_Nil: "bits_of_bytes [] = []"
  by (simp add: bits_of_bytes_def)

lemma bits_of_bytes_Cons: "bits_of_bytes (x # xs) = bits_of_byte x @ bits_of_bytes xs"
  by (simp add: bits_of_bytes_def)

lemma bits_of_bytes_append: "bits_of_bytes (xs @ ys) = bits_of_bytes xs @ bits_of_bytes ys"
  by (simp add: bits_of_bytes_def)

lemma uint_of_bits_append:
  "uint_of_bits (xs @ ys) = uint_of_bits xs * 2 ^ length ys + uint_of_bits ys"
  by (simp add: uint_of_bits_def horner_sum_append)

lemma uint_of_bits_less: "uint_of_bits bs < 2 ^ length bs"
  using horner_sum_of_bool_2_less [of "rev bs"] by (simp add: uint_of_bits_def)

lemma upt_0_8: "[0..<8] = [0, 1, 2, 3, 4, 5, 6, 7::nat]"
  by code_simp

lemma uint_of_bits_of_byte: "uint_of_bits (bits_of_byte w) = unat w"
proof -
  have "rev (bits_of_byte w) = map (bit (unat w)) [0..<8]"
    unfolding upt_0_8 by (simp add: bits_of_byte_def bit_unsigned_iff)
  then have "uint_of_bits (bits_of_byte w) = horner_sum of_bool 2 (map (bit (unat w)) [0..<8])"
    by (simp add: uint_of_bits_def)
  also have "\<dots> = take_bit 8 (unat w)"
    by (rule horner_sum_bit_eq_take_bit)
  also have "\<dots> = unat w"
    using unsigned_less [of w, where 'a = nat] by (simp add: take_bit_nat_eq_self_iff)
  finally show ?thesis .
qed

lemma byte_of_bits_of_byte: "of_nat (uint_of_bits (bits_of_byte w)) = w"
  by (simp add: uint_of_bits_of_byte)

lemma bytes_of_bits_Cons: "bytes_of_bits (bits_of_byte w @ rest) = w # bytes_of_bits rest"
  by (subst bytes_of_bits.simps) (simp add: length_bits_of_byte byte_of_bits_of_byte)

lemma bytes_of_bits_of_bytes: "bytes_of_bits (bits_of_bytes xs) = xs"
  by (induction xs) (simp_all add: bits_of_bytes_Nil bits_of_bytes_Cons bytes_of_bits_Cons bytes_of_bits.simps[of "[]"])

lemma ceiling_div8: "nat \<lceil>real n / 8\<rceil> = (n + 7) div 8"
  by linarith

lemma list8:
  assumes "length (b::'a list) = 8"
  obtains b7 b6 b5 b4 b3 b2 b1 b0 where "b = [b7, b6, b5, b4, b3, b2, b1, b0]"
proof -
  from assms have "length b = Suc (Suc (Suc (Suc (Suc (Suc (Suc (Suc 0)))))))"
    by simp
  then show ?thesis
    using that by (auto simp: length_Suc_conv)
qed

lemma bit_byte_of_uint:
  "bit (of_nat (uint_of_bits b) :: byte) k \<longleftrightarrow> k < 8 \<and> k < length b \<and> rev b ! k"
  by (auto simp: uint_of_bits_def bit_of_nat_iff bit_horner_sum_bit_iff)

lemma bits_of_byte_of_bits:
  assumes "length b = 8"
  shows "bits_of_byte (of_nat (uint_of_bits b)) = b"
proof -
  from assms obtain b7 b6 b5 b4 b3 b2 b1 b0 where b: "b = [b7, b6, b5, b4, b3, b2, b1, b0]"
    by (rule list8)
  show ?thesis
    unfolding bits_of_byte_def b by (simp add: bit_byte_of_uint)
qed

lemma bits_of_bytes_of_bits:
  "length bs mod 8 = 0 \<Longrightarrow> bits_of_bytes (bytes_of_bits bs) = bs"
proof (induction bs rule: bytes_of_bits.induct)
  case (1 bs)
  show ?case
  proof (cases "length bs < 8")
    case True
    with "1.prems" have "bs = []" by (cases bs) auto
    then show ?thesis
      by (simp add: bytes_of_bits.simps [of "[]"] bits_of_bytes_Nil)
  next
    case False
    with "1.prems" have "length (drop 8 bs) mod 8 = 0"
      by (simp add: mod_eq_0_iff_dvd) 
    with 1 False have IH: "bits_of_bytes (bytes_of_bits (drop 8 bs)) = drop 8 bs"
      by simp
    from False have "length (take 8 bs) = 8" by simp
    then have "bits_of_byte (of_nat (uint_of_bits (take 8 bs))) = take 8 bs"
      by (rule bits_of_byte_of_bits)
    with IH False show ?thesis
      by (subst bytes_of_bits.simps) (simp add: bits_of_bytes_Cons)
  qed
qed

lemma length_bytes_of_bits: "length (bytes_of_bits bs) = length bs div 8"
proof (induction bs rule: bytes_of_bits.induct)
  case (1 bs)
  show ?case
  proof (cases "length bs < 8")
    case True
    then show ?thesis by (subst bytes_of_bits.simps) simp
  next
    case False
    with 1 have "length (bytes_of_bits (drop 8 bs)) = (length bs - 8) div 8" by simp
    moreover from False have "bytes_of_bits bs =
        of_nat (uint_of_bits (take 8 bs)) # bytes_of_bits (drop 8 bs)"
      by (subst bytes_of_bits.simps) simp
    moreover from False have "Suc ((length bs - 8) div 8) = length bs div 8"
      by (simp add: le_div_geq [of 8 "length bs"])
    ultimately show ?thesis by simp
  qed
qed

subsection \<open>Reading one MPI\<close>

lemma and_then_Inr: "and_then (Inr x) f = f x"
  by (simp add: and_then_def)

lemma and_then_Inl: "and_then (Inl e) f = Inl e"
  by (simp add: and_then_def)

lemma parse_eq:
  "parse region =
     (if length (bits region) - pos region < 16 then Inl ReadError
      else if length (bits region) - (pos region + 16)
              < 8 * ((uint_of_bits (take 16 (drop (pos region) (bits region))) + 7) div 8)
      then Inl ReadError
      else Inr (take (8 * ((uint_of_bits (take 16 (drop (pos region) (bits region))) + 7) div 8))
                  (drop (pos region + 16) (bits region)),
                region\<lparr>pos := pos region + 16
                   + 8 * ((uint_of_bits (take 16 (drop (pos region) (bits region))) + 7) div 8)\<rparr>))"
  by (simp add: parse_def read_uint_def read_def and_then_def Let_def mult.commute add.assoc)

lemma prefix_bits:
  assumes "length b = 16"
  shows "bits_of_bytes [of_nat (uint_of_bits b div 256), of_nat (uint_of_bits b mod 256)] = b"
proof -
  let ?hi = "take 8 b" and ?lo = "drop 8 b"
  have len: "length ?hi = 8" "length ?lo = 8" using assms by simp_all
  have "uint_of_bits b = uint_of_bits (?hi @ ?lo)" by simp
  also have "\<dots> = uint_of_bits ?hi * 256 + uint_of_bits ?lo"
    using len by (simp only: uint_of_bits_append) simp
  finally have u: "uint_of_bits b = uint_of_bits ?hi * 256 + uint_of_bits ?lo" .
  have lo: "uint_of_bits ?lo < 256"
    using uint_of_bits_less [of ?lo] len by simp
  from u lo have "uint_of_bits b div 256 = uint_of_bits ?hi" "uint_of_bits b mod 256 = uint_of_bits ?lo"
    by simp_all
  then have "bits_of_bytes [of_nat (uint_of_bits b div 256), of_nat (uint_of_bits b mod 256)]
      = ?hi @ ?lo"
    using len by (simp add: bits_of_bytes_def bits_of_byte_of_bits)
  then show ?thesis by simp
qed

lemma uint_prefix:
  assumes "n < 65536"
  shows "uint_of_bits (bits_of_bytes [of_nat (n div 256), of_nat (n mod 256)]) = n"
proof -
  from assms have "n div 256 < 256" by simp
  then have hi: "unat (of_nat (n div 256) :: byte) = n div 256"
    by (simp add: unat_of_nat)
  have lo: "unat (of_nat (n mod 256) :: byte) = n mod 256"
    by (simp add: unat_of_nat)
  have "bits_of_bytes [of_nat (n div 256), of_nat (n mod 256) :: byte]
      = bits_of_byte (of_nat (n div 256)) @ bits_of_byte (of_nat (n mod 256))"
    by (simp add: bits_of_bytes_def)
  then show ?thesis
    by (simp add: uint_of_bits_append uint_of_bits_of_byte hi lo length_bits_of_byte)
qed

lemma parse_wire:
  assumes n: "n < 65536" and len: "length payload = (n + 7) div 8"
    and bits: "bits region = pre @ bits_of_bytes (mpi_encode n payload) @ rest"
    and pos: "pos region = length pre"
  shows "parse region =
           Inr (bits_of_bytes payload, region\<lparr>pos := pos region + 16 + 8 * length payload\<rparr>)"
proof -
  let ?p = "bits_of_bytes [of_nat (n div 256), of_nat (n mod 256) :: byte]"
  have enc: "bits_of_bytes (mpi_encode n payload) = ?p @ bits_of_bytes payload"
    by (simp add: mpi_encode_def bits_of_bytes_def)
  have lp: "length ?p = 16" by (simp add: length_bits_of_bytes)
  have d: "drop (pos region) (bits region) = ?p @ bits_of_bytes payload @ rest"
    by (simp add: bits pos enc)
  have t16: "take 16 (drop (pos region) (bits region)) = ?p"
    unfolding d using lp by simp
  have d16: "drop (pos region + 16) (bits region) = bits_of_bytes payload @ rest"
    using d lp by (metis add.commute append_eq_conv_conj drop_drop)
  have u: "uint_of_bits (take 16 (drop (pos region) (bits region))) = n"
    unfolding t16 using n by (rule uint_prefix)
  have l: "length (bits region) - pos region = 16 + 8 * length payload + length rest"
    by (simp add: bits pos enc lp length_bits_of_bytes)
  show ?thesis
    unfolding parse_eq u d16 using l len
    by (simp add: length_bits_of_bytes)
qed


text \<open>
  C4.  \<^verbatim>\<open>Mpi.parse\<close> on any region: when the cursor stands before 16 bits that spell the
  number \<open>n\<close>, big-endian, and \<open>8 * ceil (n / 8)\<close> further bits follow them, it returns
  exactly those further bits, that is \<open>ceil (n / 8)\<close> bytes, and leaves the cursor past
  them; writing \<open>n\<close> as a 16-bit prefix before the returned bytes gives back the bits that
  were read.  So for a byte sequence \<open>bs\<close> of length \<open>L\<close> sent behind the prefix \<open>8 * L\<close>
  (which fits 16 bits when \<open>8 * L < 65536\<close>), parsing returns \<open>bs\<close> and reads the whole
  encoding.
\<close>

theorem mpi_parse_round_trip:
  "(bits region = before @ prefix @ body @ rest \<and> pos region = length before \<and>
    length prefix = 16 \<and> n = uint_of_bits prefix \<and> length body = 8 * nat \<lceil>real n / 8\<rceil> \<longrightarrow>
      parse region = Inr (body, region\<lparr>pos := pos region + 16 + 8 * nat \<lceil>real n / 8\<rceil>\<rparr>) \<and>
      (\<exists>payload. bytes body = Inr payload \<and> length payload = nat \<lceil>real n / 8\<rceil> \<and>
         bits_of_bytes (mpi_encode n payload) = prefix @ body))
   \<and> (8 * length bs < 65536 \<longrightarrow>
      (\<exists>mpi region'.
         parse (ConstBitStream_bytes (mpi_encode (8 * length bs) bs)) = Inr (mpi, region') \<and>
         pos region' = length (bits region') \<and>
         bytes mpi = Inr bs))"
proof (rule conjI; rule impI)
  assume A: "bits region = before @ prefix @ body @ rest \<and> pos region = length before \<and>
    length prefix = 16 \<and> n = uint_of_bits prefix \<and> length body = 8 * nat \<lceil>real n / 8\<rceil>"
  define k where "k = (n + 7) div 8"
  have c: "nat \<lceil>real n / 8\<rceil> = k" by (simp add: k_def ceiling_div8)
  from A have d: "drop (pos region) (bits region) = prefix @ body @ rest" by simp
  from A have t16: "take 16 (drop (pos region) (bits region)) = prefix"
    unfolding d by simp
  from A have d16: "drop (pos region + 16) (bits region) = body @ rest"
    by (simp add: add.commute [of _ 16] flip: drop_drop)
  from A have n: "uint_of_bits prefix = n" and lb: "length body = 8 * k"
    by (simp_all add: c)
  from A have l: "length (bits region) - pos region = 16 + 8 * k + length rest"
    by (simp add: c)
  have p: "parse region = Inr (body, region\<lparr>pos := pos region + 16 + 8 * k\<rparr>)"
    unfolding parse_eq t16 d16 n using l lb by (simp add: k_def)
  from lb have b: "bytes body = Inr (bytes_of_bits body)"
    by (simp add: bytes_def)
  have lp: "length (bytes_of_bits body) = k"
    by (simp add: length_bytes_of_bits lb)
  from A have "bits_of_bytes [of_nat (n div 256), of_nat (n mod 256) :: byte] = prefix"
    using prefix_bits [of prefix] by simp
  then have "bits_of_bytes (mpi_encode n (bytes_of_bits body)) = prefix @ body"
    using lb by (simp add: mpi_encode_def bits_of_bytes_Cons bits_of_bytes_Nil
        bits_of_bytes_of_bits)
  with p b lp show "parse region =
        Inr (body, region\<lparr>pos := pos region + 16 + 8 * nat \<lceil>real n / 8\<rceil>\<rparr>) \<and>
      (\<exists>payload. bytes body = Inr payload \<and> length payload = nat \<lceil>real n / 8\<rceil> \<and>
         bits_of_bytes (mpi_encode n payload) = prefix @ body)"
    unfolding c by blast
next
  assume B: "8 * length bs < 65536"
  let ?wire = "mpi_encode (8 * length bs) bs"
  let ?r = "ConstBitStream_bytes ?wire"
  have "parse ?r = Inr (bits_of_bytes bs, ?r\<lparr>pos := pos ?r + 16 + 8 * length bs\<rparr>)"
    using B by (intro parse_wire [where pre = "[]" and rest = "[]"])
      (simp_all add: ConstBitStream_bytes_def)
  moreover have "pos (?r\<lparr>pos := pos ?r + 16 + 8 * length bs\<rparr>)
      = length (bits (?r\<lparr>pos := pos ?r + 16 + 8 * length bs\<rparr>))"
    by (simp add: ConstBitStream_bytes_def length_bits_of_bytes mpi_encode_def)
  moreover have "bytes (bits_of_bytes bs) = Inr bs"
    by (simp add: bytes_def length_bits_of_bytes bytes_of_bits_of_bytes)
  ultimately show "\<exists>mpi region'.
         parse ?r = Inr (mpi, region') \<and>
         pos region' = length (bits region') \<and>
         bytes mpi = Inr bs"
    by blast
qed

theorem mpi_parse_round_trip_witness:
  "parse \<lparr>bits = bits_of_bytes [0, 9, 0xAB, 0xCD, 0xEF], pos = 0\<rparr> =
     Inr (bits_of_bytes [0xAB, 0xCD], \<lparr>bits = bits_of_bytes [0, 9, 0xAB, 0xCD, 0xEF], pos = 32\<rparr>)
   \<and> (\<exists>payload. bytes (bits_of_bytes [0xAB, 0xCD]) = Inr payload \<and> length payload = 2 \<and>
         bits_of_bytes (mpi_encode 9 payload) = bits_of_bytes [0, 9, 0xAB, 0xCD])
   \<and> (\<exists>mpi region'.
         parse (ConstBitStream_bytes (mpi_encode 16 [0xAB, 0xCD])) = Inr (mpi, region') \<and>
         pos region' = length (bits region') \<and>
         bytes mpi = Inr [0xAB, 0xCD])"
proof -
  let ?r = "\<lparr>bits = bits_of_bytes [0, 9, 0xAB, 0xCD, 0xEF], pos = 0\<rparr>"
  have h: "bits ?r = [] @ bits_of_bytes [0, 9] @ bits_of_bytes [0xAB, 0xCD] @ bits_of_bytes [0xEF]
      \<and> pos ?r = length ([] :: bool list) \<and> length (bits_of_bytes [0, 9]) = 16
      \<and> 9 = uint_of_bits (bits_of_bytes [0, 9])
      \<and> length (bits_of_bytes [0xAB, 0xCD]) = 8 * nat \<lceil>real 9 / 8\<rceil>"
    by (simp add: bits_of_bytes_def bits_of_byte_def uint_of_bits_def)
  have c: "nat \<lceil>real 9 / 8\<rceil> = 2" by simp
  have e: "bits_of_bytes [0, 9] @ bits_of_bytes [0xAB, 0xCD] = bits_of_bytes [0, 9, 0xAB, 0xCD]"
    by (simp add: bits_of_bytes_def)
  have b: "8 * length [0xAB, 0xCD :: byte] < 65536" by simp
  have l: "8 * length [0xAB, 0xCD :: byte] = 16" by simp
  from mpi_parse_round_trip
    [of ?r "[]" "bits_of_bytes [0, 9]" "bits_of_bytes [0xAB, 0xCD]" "bits_of_bytes [0xEF]" 9
      "[0xAB, 0xCD]"] h b
  show ?thesis
    unfolding c e l by simp
qed

text \<open>
  C5.  When the region ends before the bytes that the 16-bit prefix declares (fewer
  whole bytes follow the prefix than \<open>ceil (n / 8)\<close>), \<^verbatim>\<open>Mpi.parse\<close> raises the library's
  \<open>ReadError\<close> (the specification's TruncatedRegion) and returns no value; so it does on
  a region that ends with a prefix declaring at least one bit.
\<close>

theorem mpi_parse_truncated:
  "(bits region = before @ prefix @ body \<and> pos region = length before \<and>
    length prefix = 16 \<and> n = uint_of_bits prefix \<and>
    length body div 8 < nat \<lceil>real n / 8\<rceil> \<longrightarrow> parse region = Inl ReadError)
   \<and> (bits region = before @ prefix \<and> pos region = length before \<and>
    length prefix = 16 \<and> 1 \<le> uint_of_bits prefix \<longrightarrow> parse region = Inl ReadError)"
proof (rule conjI; rule impI)
  assume A: "bits region = before @ prefix @ body \<and> pos region = length before \<and>
    length prefix = 16 \<and> n = uint_of_bits prefix \<and>
    length body div 8 < nat \<lceil>real n / 8\<rceil>"
  then have t16: "take 16 (drop (pos region) (bits region)) = prefix" by simp
  from A have l: "length (bits region) - pos region = 16 + length body" by simp
  from A have "length body div 8 < (uint_of_bits prefix + 7) div 8"
    by (auto simp: ceiling_div8)
  then have "length body < 8 * ((uint_of_bits prefix + 7) div 8)"
    by arith
  with l show "parse region = Inl ReadError"
    unfolding parse_eq t16 by simp
next
  assume B: "bits region = before @ prefix \<and> pos region = length before \<and>
    length prefix = 16 \<and> 1 \<le> uint_of_bits prefix"
  then have t16: "take 16 (drop (pos region) (bits region)) = prefix" by simp
  from B have l: "length (bits region) - pos region = 16" by simp
  from B have "0 < 8 * ((uint_of_bits prefix + 7) div 8)" by arith
  with l show "parse region = Inl ReadError"
    unfolding parse_eq t16 by simp
qed

theorem mpi_parse_truncated_witness:
  "parse (ConstBitStream_bytes [0, 9, 0xAB]) = Inl ReadError
   \<and> parse (ConstBitStream_bytes [0, 1]) = Inl ReadError"
proof -
  have h1: "bits (ConstBitStream_bytes [0, 9, 0xAB]) = [] @ bits_of_bytes [0, 9] @ bits_of_bytes [0xAB]
      \<and> pos (ConstBitStream_bytes [0, 9, 0xAB]) = length ([] :: bool list)
      \<and> length (bits_of_bytes [0, 9]) = 16 \<and> 9 = uint_of_bits (bits_of_bytes [0, 9])
      \<and> length (bits_of_bytes [0xAB]) div 8 < nat \<lceil>real 9 / 8\<rceil>"
    by (simp add: ConstBitStream_bytes_def bits_of_bytes_def bits_of_byte_def uint_of_bits_def)
  have h2: "bits (ConstBitStream_bytes [0, 1]) = [] @ bits_of_bytes [0, 1]
      \<and> pos (ConstBitStream_bytes [0, 1]) = length ([] :: bool list)
      \<and> length (bits_of_bytes [0, 1]) = 16 \<and> 1 \<le> uint_of_bits (bits_of_bytes [0, 1])"
    by (simp add: ConstBitStream_bytes_def bits_of_bytes_def bits_of_byte_def uint_of_bits_def)
  from mpi_parse_truncated
    [of "ConstBitStream_bytes [0, 9, 0xAB]" "[]" "bits_of_bytes [0, 9]" "bits_of_bytes [0xAB]" 9]
    h1
  have "parse (ConstBitStream_bytes [0, 9, 0xAB]) = Inl ReadError" by blast
  moreover from mpi_parse_truncated
    [of "ConstBitStream_bytes [0, 1]" "[]" "bits_of_bytes [0, 1]" "[]" 0] h2
  have "parse (ConstBitStream_bytes [0, 1]) = Inl ReadError" by blast
  ultimately show ?thesis by simp
qed


subsection \<open>Layouts\<close>

text \<open>
  C7.  The layouts read a fixed number of MPI values, one after the other, and return
  them in the order read.  With \<open>v1\<close>, \<open>v2\<close>, \<open>v3\<close>, \<open>v4\<close> the values that successive calls
  of \<^verbatim>\<open>Mpi.parse\<close> return on the region: the RSA public key is \<open>(v1, v2)\<close>, that is
  \<open>(n, e)\<close>; the DSA private key is \<open>(v1)\<close>, that is \<open>(x)\<close>; the ElGamal ciphertext is
  \<open>(v1, v2)\<close>; the RSA ciphertext is \<open>(v1)\<close>; and likewise the ElGamal private key has
  one value, the ElGamal public key three, the RSA private key and the DSA public key
  four.
\<close>

theorem mpi_layouts:
  "(parse region = Inr (v1, region1) \<longrightarrow>
      consume_encryption region (Module RSA) = Inr ([v1], region1) \<and>
      consume_private region (Module DSA) = Inr ([v1], region1) \<and>
      consume_private region (Module ElGamal) = Inr ([v1], region1))
   \<and> (parse region = Inr (v1, region1) \<and> parse region1 = Inr (v2, region2) \<longrightarrow>
      consume_public region (Module RSA) = Inr ([v1, v2], region2) \<and>
      consume_encryption region (Module ElGamal) = Inr ([v1, v2], region2))
   \<and> (parse region = Inr (v1, region1) \<and> parse region1 = Inr (v2, region2) \<and>
      parse region2 = Inr (v3, region3) \<longrightarrow>
      consume_public region (Module ElGamal) = Inr ([v1, v2, v3], region3))
   \<and> (parse region = Inr (v1, region1) \<and> parse region1 = Inr (v2, region2) \<and>
      parse region2 = Inr (v3, region3) \<and> parse region3 = Inr (v4, region4) \<longrightarrow>
      consume_private region (Module RSA) = Inr ([v1, v2, v3, v4], region4) \<and>
      consume_public region (Module DSA) = Inr ([v1, v2, v3, v4], region4))"
  by (simp add: consume_encryption_def consume_public_def consume_private_def
      rsa_mpis_public_def rsa_mpis_private_def elgamal_mpis_public_def
      elgamal_mpis_private_def dsa_mpis_public_def dsa_mpis_private_def and_then_def)

theorem mpi_layouts_witness:
  "consume_public two_mpis (Module RSA) =
     Inr ([bits_of_bytes [0x01, 0xCD], bits_of_bytes [0xEF]], two_mpis\<lparr>pos := 56\<rparr>)
   \<and> consume_encryption two_mpis (Module ElGamal) =
     Inr ([bits_of_bytes [0x01, 0xCD], bits_of_bytes [0xEF]], two_mpis\<lparr>pos := 56\<rparr>)
   \<and> consume_private two_mpis (Module DSA) =
     Inr ([bits_of_bytes [0x01, 0xCD]], two_mpis\<lparr>pos := 32\<rparr>)
   \<and> consume_encryption two_mpis (Module RSA) =
     Inr ([bits_of_bytes [0x01, 0xCD]], two_mpis\<lparr>pos := 32\<rparr>)"
proof -
  have p1: "parse two_mpis = Inr (bits_of_bytes [0x01, 0xCD], two_mpis\<lparr>pos := 32\<rparr>)"
    by (simp add: two_mpis_def parse_eq ConstBitStream_bytes_def bits_of_bytes_def
        bits_of_byte_def uint_of_bits_def)
  have p2: "parse (two_mpis\<lparr>pos := 32\<rparr>) = Inr (bits_of_bytes [0xEF], two_mpis\<lparr>pos := 56\<rparr>)"
    by (simp add: two_mpis_def parse_eq ConstBitStream_bytes_def bits_of_bytes_def
        bits_of_byte_def uint_of_bits_def)
  from mpi_layouts [of two_mpis "bits_of_bytes [0x01, 0xCD]" "two_mpis\<lparr>pos := 32\<rparr>"
      "bits_of_bytes [0xEF]" "two_mpis\<lparr>pos := 56\<rparr>"] p1 p2
  show ?thesis by blast
qed


text \<open>
  C8.  \<^verbatim>\<open>Mpi.consume_encryption\<close> with the DSA module, which has no layout for a
  ciphertext: the branch that reports it formats its message with \<^verbatim>\<open>%d\<close>, the module is
  not a number, and the exception that leaves the function is the \<open>TypeError\<close> of the
  formatting, on every region.  It is no \<open>PGPException\<close>, and it names neither the
  context nor the algorithm.
\<close>

theorem consume_encryption_dsa_type_error:
  "consume_encryption region (Module DSA) = Inl TypeError
   \<and> (\<forall>msg code. consume_encryption region (Module DSA) \<noteq> Inl (PGPException msg code))"
  by (simp add: consume_encryption_def raise_PGPException_def)

subsection \<open>Byte-aligned streams\<close>

lemma drop_bits_of_bytes: "drop (8 * i) (bits_of_bytes xs) = bits_of_bytes (drop i xs)"
proof (induction xs arbitrary: i)
  case Nil
  then show ?case by (simp add: bits_of_bytes_Nil)
next
  case (Cons x xs)
  show ?case
  proof (cases i)
    case 0
    then show ?thesis by simp
  next
    case (Suc j)
    have "drop (8 * Suc j) (bits_of_byte x @ bits_of_bytes xs) = drop (8 * j) (bits_of_bytes xs)"
      by (simp add: length_bits_of_byte)
    with Cons Suc show ?thesis by (simp add: bits_of_bytes_Cons)
  qed
qed

lemma take_bits_of_bytes: "take (8 * k) (bits_of_bytes xs) = bits_of_bytes (take k xs)"
proof (induction xs arbitrary: k)
  case Nil
  then show ?case by (simp add: bits_of_bytes_Nil)
next
  case (Cons x xs)
  show ?case
  proof (cases k)
    case 0
    then show ?thesis by (simp add: bits_of_bytes_Nil)
  next
    case (Suc j)
    have "take (8 * Suc j) (bits_of_byte x @ bits_of_bytes xs)
        = bits_of_byte x @ take (8 * j) (bits_of_bytes xs)"
      by (simp add: length_bits_of_byte)
    with Cons Suc show ?thesis by (simp add: bits_of_bytes_Cons)
  qed
qed

lemma read_bytes_aligned:
  assumes "i + k \<le> length xs"
  shows "read_bytes \<lparr>bits = bits_of_bytes xs, pos = 8 * i\<rparr> k =
           Inr (take k (drop i xs), \<lparr>bits = bits_of_bytes xs, pos = 8 * (i + k)\<rparr>)"
  using assms
  by (simp add: read_bytes_def read_def and_then_def length_bits_of_bytes
      drop_bits_of_bytes take_bits_of_bytes bytes_of_bits_of_bytes add_mult_distrib2)

lemma read_bytes_aligned_short:
  assumes "length xs < i + k" and "i \<le> length xs"
  shows "read_bytes \<lparr>bits = bits_of_bytes xs, pos = 8 * i\<rparr> k = Inl ReadError"
  using assms
  by (simp add: read_bytes_def read_def and_then_def length_bits_of_bytes)

lemma read_bytes_rest_aligned:
  assumes "i \<le> length xs"
  shows "read_bytes_rest \<lparr>bits = bits_of_bytes xs, pos = 8 * i\<rparr> =
           Inr (drop i xs, \<lparr>bits = bits_of_bytes xs, pos = 8 * length xs\<rparr>)"
proof -
  have "length (bits_of_bytes xs) - 8 * i = 8 * (length xs - i)"
    by (simp add: length_bits_of_bytes diff_mult_distrib2)
  then show ?thesis
    using assms
    by (simp add: read_bytes_rest_def read_def and_then_def Let_def
        drop_bits_of_bytes take_bits_of_bytes bytes_of_bits_of_bytes)
qed

lemma bytepos_aligned: "bytepos \<lparr>bits = b, pos = 8 * i\<rparr> = Inr i"
  by (simp add: bytepos_def)

lemma hex_00_list: "hex_00 = [False, False, False, False, False, False, False, False]"
  by (simp add: hex_00_def eval_nat_numeral)

lemma length_hex_00: "length hex_00 = 8"
  by (simp add: hex_00_def)

lemma bits_of_byte_zero_iff: "bits_of_byte w = hex_00 \<longleftrightarrow> w = 0"
proof
  assume a: "bits_of_byte w = hex_00"
  show "w = 0"
  proof (rule bit_word_eqI)
    fix n assume "n < LENGTH(8)"
    then have "n \<in> set [7, 6, 5, 4, 3, 2, 1, 0]"
      by auto
    with a show "bit w n \<longleftrightarrow> bit (0 :: byte) n"
      by (auto simp: bits_of_byte_def hex_00_list)
  qed
next
  assume "w = 0"
  then show "bits_of_byte w = hex_00"
    by (simp add: bits_of_byte_def hex_00_list)
qed

lemma zero_byte_at:
  "take (length hex_00) (drop (8 * i) (bits_of_bytes xs)) = hex_00 \<longleftrightarrow> i < length xs \<and> xs ! i = 0"
proof (cases "i < length xs")
  case True
  then have "take 1 (drop i xs) = [xs ! i]"
    by (simp add: take_Suc_conv_app_nth)
  then have "bits_of_bytes (take 1 (drop i xs)) = bits_of_byte (xs ! i)"
    by (simp add: bits_of_bytes_Cons bits_of_bytes_Nil)
  then have "take (8 * 1) (bits_of_bytes (drop i xs)) = bits_of_byte (xs ! i)"
    by (simp only: take_bits_of_bytes)
  then have "take (length hex_00) (drop (8 * i) (bits_of_bytes xs)) = bits_of_byte (xs ! i)"
    by (simp add: drop_bits_of_bytes length_hex_00)
  with True show ?thesis
    by (simp add: bits_of_byte_zero_iff)
next
  case False
  then have "take (length hex_00) (drop (8 * i) (bits_of_bytes xs)) = []"
    by (simp add: drop_bits_of_bytes bits_of_bytes_Nil)
  with False show ?thesis
    by (simp add: hex_00_list)
qed

lemma find_first_zero:
  assumes "xs = nz @ 0 # rest" and "0 \<notin> set nz"
  shows "List.find (\<lambda>i. i < length xs \<and> xs ! i = (0::byte)) [0 ..< Suc (length xs)]
           = Some (length nz)"
proof -
  let ?L = "[0 ..< Suc (length xs)]"
  have n: "\<And>j. j \<le> length nz \<Longrightarrow> ?L ! j = j"
    using assms(1) nth_upt [of 0 _ "Suc (length xs)"] by simp
  have at: "xs ! length nz = 0" using assms(1) by simp
  have before: "\<And>j. j < length nz \<Longrightarrow> xs ! j \<noteq> 0"
    using assms by (metis nth_append nth_mem)
  have "\<exists>i<length ?L. (?L ! i < length xs \<and> xs ! (?L ! i) = 0) \<and> length nz = ?L ! i
          \<and> (\<forall>j<i. \<not> (?L ! j < length xs \<and> xs ! (?L ! j) = 0))"
  proof (intro exI [of _ "length nz"] conjI allI impI)
    show "length nz < length ?L" using assms(1) by simp
    show "?L ! length nz < length xs" using n [of "length nz"] assms(1) by simp
    show "xs ! (?L ! length nz) = 0" using n [of "length nz"] at by simp
    show "length nz = ?L ! length nz" using n [of "length nz"] by simp
  next
    fix j assume "j < length nz"
    then show "\<not> (?L ! j < length xs \<and> xs ! (?L ! j) = 0)"
      using n [of j] before [of j] by simp
  qed
  then show ?thesis
    by (simp only: find_Some_iff)
qed

lemma find_zero_found:
  assumes "xs = nz @ 0 # rest" and "0 \<notin> set nz"
  shows "find_bytealigned \<lparr>bits = bits_of_bytes xs, pos = p\<rparr> hex_00 =
           \<lparr>bits = bits_of_bytes xs, pos = 8 * length nz\<rparr>"
  using find_first_zero [OF assms]
  by (simp add: find_bytealigned_def zero_byte_at length_bits_of_bytes del: upt_Suc)

lemma find_zero_missing:
  assumes "0 \<notin> set xs"
  shows "find_bytealigned \<lparr>bits = bits_of_bytes xs, pos = p\<rparr> hex_00
           = \<lparr>bits = bits_of_bytes xs, pos = p\<rparr>"
proof -
  have "\<And>i. i < length xs \<Longrightarrow> xs ! i \<noteq> 0"
    using assms by (metis nth_mem)
  then have "List.find (\<lambda>i. i < length xs \<and> xs ! i = 0) [0 ..< Suc (length xs)] = None"
    by (auto simp: find_None_iff simp del: upt_Suc)
  then show ?thesis
    by (simp add: find_bytealigned_def zero_byte_at length_bits_of_bytes del: upt_Suc)
qed

subsection \<open>PKCS.consume\<close>

lemma parse_whole_bytes:
  assumes "parse region = Inr (m, region')"
  shows "length m mod 8 = 0"
  using assms unfolding parse_eq
  by (auto split: if_splits)

lemma bytes_whole: "length m mod 8 = 0 \<Longrightarrow> bytes m = Inr (bytes_of_bits m)"
  by (simp add: bytes_def)

lemma consume_encryption_bytes:
  assumes "consume_encryption region algorithm = Inr (mpis, region')"
  shows "bytes_each mpis = Inr (map bytes_of_bits mpis)"
proof -
  consider (rsa) "algorithm = Module RSA" | (elg) "algorithm = Module ElGamal"
    | (other) "algorithm \<noteq> Module RSA" "algorithm \<noteq> Module ElGamal"
    by blast
  then show ?thesis
  proof cases
    case rsa
    with assms obtain m where p: "parse region = Inr (m, region')" and m: "mpis = [m]"
      by (auto simp: consume_encryption_def and_then_def split: sum.splits)
    from p have "bytes m = Inr (bytes_of_bits m)"
      by (intro bytes_whole parse_whole_bytes)
    with m show ?thesis by (simp add: and_then_def)
  next
    case elg
    with assms obtain a b r1 where p1: "parse region = Inr (a, r1)"
      and p2: "parse r1 = Inr (b, region')" and m: "mpis = [a, b]"
      by (auto simp: consume_encryption_def and_then_def split: sum.splits)
    from p1 have "bytes a = Inr (bytes_of_bits a)"
      by (intro bytes_whole parse_whole_bytes)
    moreover from p2 have "bytes b = Inr (bytes_of_bits b)"
      by (intro bytes_whole parse_whole_bytes)
    ultimately show ?thesis using m by (simp add: and_then_def)
  next
    case other
    with assms show ?thesis by (simp add: consume_encryption_def)
  qed
qed

lemma consume_body_eq:
  assumes ce: "consume_encryption region key_algorithm = Inr (mpis, region')"
    and key: "key (map bytes_of_bits mpis) = Inr buf"
  shows "consume_body region key_algorithm key rng =
     (case buf of
        [] \<Rightarrow> Inl ReadError
      | b # t \<Rightarrow>
          Inr (region', \<lparr>bits = bits_of_bytes buf, pos = 8 * length buf\<rparr>,
               if b = 2 \<and> 0 \<in> set t \<and> 8 \<le> length (takeWhile (\<lambda>x. x \<noteq> 0) t)
               then tl (dropWhile (\<lambda>x. x \<noteq> 0) t)
               else Random_read rng 19))"
proof -
  let ?S = "\<lambda>i. \<lparr>bits = bits_of_bytes buf, pos = 8 * i\<rparr>"
  have start: "consume_body region key_algorithm key rng =
      and_then (read_bytes (?S 0) 1) (\<lambda>(first, padded).
        and_then
          (if first = [0x02] then
             and_then (bytepos padded) (\<lambda>pos_before.
             let padded = find_bytealigned padded hex_00
             in and_then (bytepos padded) (\<lambda>pos_after.
                if int pos_after - int pos_before \<ge> 8 then
                  and_then (read_bytes padded 1) (\<lambda>(sep, padded).
                  and_then (read_bytes_rest padded) (\<lambda>(decrypted, padded).
                  Inr (padded, decrypted)))
                else Inr (padded, Random_read rng 19)))
           else Inr (padded, Random_read rng 19))
          (\<lambda>(padded, decrypted).
        and_then (read_bytes_rest padded) (\<lambda>(discarded, padded).
        Inr (region', padded, decrypted))))"
    by (simp add: consume_body_def ce consume_encryption_bytes [OF ce] key and_then_Inr
        ConstBitStream_bytes_def Let_def)
  show ?thesis
  proof (cases buf)
    case Nil
    then have "read_bytes (?S 0) 1 = Inl ReadError"
      using read_bytes_aligned_short [of buf 0 1] by simp
    with Nil show ?thesis
      unfolding start by (simp add: and_then_Inl)
  next
    case (Cons b t)
    then have r1: "read_bytes (?S 0) 1 = Inr ([b], ?S 1)"
      using read_bytes_aligned [of 0 1 buf] by simp
    have fin: "\<And>i. i \<le> length buf \<Longrightarrow>
        read_bytes_rest (?S i) = Inr (drop i buf, ?S (length buf))"
      by (rule read_bytes_rest_aligned)
    have bp: "\<And>i. bytepos (?S i) = Inr i"
      by (rule bytepos_aligned)
    from Cons have l1: "1 \<le> length buf" by simp
    show ?thesis
    proof (cases "b = 2")
      case False
      have "consume_body region key_algorithm key rng
          = Inr (region', ?S (length buf), Random_read rng 19)"
        unfolding start r1 using False fin [OF l1]
        by (simp add: and_then_Inr)
      with Cons False show ?thesis by simp
    next
      case b2: True
      show ?thesis
      proof (cases "0 \<in> set t")
        case False
        with b2 Cons have "0 \<notin> set buf" by simp
        then have f: "find_bytealigned (?S 1) hex_00 = ?S 1"
          by (rule find_zero_missing)
        have "consume_body region key_algorithm key rng
            = Inr (region', ?S (length buf), Random_read rng 19)"
          unfolding start r1 using b2 fin [OF l1] bp [of 1] f
          by (simp add: and_then_Inr)
        with Cons False show ?thesis by simp
      next
        case True
        define ps where "ps = takeWhile (\<lambda>x. x \<noteq> 0) t"
        define payload where "payload = tl (dropWhile (\<lambda>x. x \<noteq> 0) t)"
        from True have "dropWhile (\<lambda>x. x \<noteq> 0) t \<noteq> []" by simp
        moreover from this have "hd (dropWhile (\<lambda>x. x \<noteq> 0) t) = 0"
          using hd_dropWhile [of "\<lambda>x. x \<noteq> 0" t] by simp
        ultimately have "dropWhile (\<lambda>x. x \<noteq> 0) t = 0 # payload"
          unfolding payload_def by (cases "dropWhile (\<lambda>x. x \<noteq> 0) t") simp_all
        then have t: "t = ps @ 0 # payload"
          unfolding ps_def using takeWhile_dropWhile_id [of "\<lambda>x. x \<noteq> 0" t] by simp
        have nz: "0 \<notin> set (2 # ps)"
          unfolding ps_def using set_takeWhileD [of 0 "\<lambda>x. x \<noteq> (0::byte)" t] by auto
        from Cons b2 t have buf: "buf = (2 # ps) @ 0 # payload" by simp
        have f: "find_bytealigned (?S 1) hex_00 = ?S (Suc (length ps))"
          using find_zero_found [OF buf nz, of "8 * 1"] by simp
        have lb: "length buf = Suc (Suc (length ps + length payload))"
          using buf by simp
        have sep: "read_bytes (?S (Suc (length ps))) 1 = Inr ([0], ?S (Suc (Suc (length ps))))"
          using read_bytes_aligned [of "Suc (length ps)" 1 buf] lb buf
          by (simp add: nth_append)
        have rest: "read_bytes_rest (?S (Suc (Suc (length ps)))) = Inr (payload, ?S (length buf))"
          using fin [of "Suc (Suc (length ps))"] lb buf by simp
        have rest': "read_bytes_rest (?S (Suc (length ps))) = Inr (0 # payload, ?S (length buf))"
          using fin [of "Suc (length ps)"] lb buf by simp
        have e: "read_bytes_rest (?S (length buf)) = Inr ([], ?S (length buf))"
          using fin [of "length buf"] by simp
        show ?thesis
        proof (cases "8 \<le> length ps")
          case long: True
          have "consume_body region key_algorithm key rng
              = Inr (region', ?S (length buf), payload)"
            unfolding start r1 using b2 long bp [of 1] bp [of "Suc (length ps)"] f sep rest e
            by (simp add: and_then_Inr)
          with Cons b2 True long show ?thesis
            by (simp add: ps_def payload_def)
        next
          case short: False
          have "consume_body region key_algorithm key rng
              = Inr (region', ?S (length buf), Random_read rng 19)"
            unfolding start r1 using b2 short bp [of 1] bp [of "Suc (length ps)"] f rest'
            by (simp add: and_then_Inr)
          with Cons b2 True short show ?thesis
            by (simp add: ps_def)
        qed
      qed
    qed
  qed
qed

lemma consume_eq:
  assumes "consume_encryption region key_algorithm = Inr (mpis, region')"
    and "key (map bytes_of_bits mpis) = Inr (b # t)"
  shows "consume region key_algorithm key rng =
           Inr (ConstBitStream_bytes
                 (if b = 2 \<and> 0 \<in> set t \<and> 8 \<le> length (takeWhile (\<lambda>x. x \<noteq> 0) t)
                  then tl (dropWhile (\<lambda>x. x \<noteq> 0) t)
                  else Random_read rng 19), region')"
  unfolding consume_def consume_body_eq [where key = key, OF assms]
  by (simp add: and_then_Inr)

lemma takeWhile_nonzero:
  "0 \<notin> set ps \<Longrightarrow> takeWhile (\<lambda>x. x \<noteq> 0) (ps @ (0::byte) # rest) = ps"
  by (induction ps) simp_all

lemma dropWhile_nonzero:
  "0 \<notin> set ps \<Longrightarrow> dropWhile (\<lambda>x. x \<noteq> 0) (ps @ (0::byte) # rest) = 0 # rest"
  by (induction ps) simp_all

lemma one_mpi_rsa:
  "consume_encryption one_mpi (Module RSA) = Inr ([bits_of_bytes [0x2A]], one_mpi\<lparr>pos := 24\<rparr>)"
  by (simp add: consume_encryption_def and_then_def one_mpi_def parse_eq ConstBitStream_bytes_def
      bits_of_bytes_def bits_of_byte_def uint_of_bits_def)

lemma fixed_key_one_mpi:
  "fixed_key out (map bytes_of_bits [bits_of_bytes [0x2A]]) = Inr out"
  by (simp add: fixed_key_def bytes_of_bits_of_bytes)


text \<open>
  C1.  When the key's \<^verbatim>\<open>decrypt\<close> returns a buffer that starts with the byte \<open>0x02\<close>,
  goes on with at least 8 non-zero bytes \<open>ps\<close> and then a \<open>0x00\<close> byte, \<^verbatim>\<open>PKCS.consume\<close>
  returns a stream over exactly the bytes \<open>payload\<close> that follow that \<open>0x00\<close>: the
  separator is dropped and the random default is replaced.
\<close>

theorem consume_returns_payload:
  assumes "consume_encryption region key_algorithm = Inr (mpis, region')"
    and "key (map bytes_of_bits mpis) = Inr (2 # ps @ 0 # payload)"
    and "0 \<notin> set ps" and "8 \<le> length ps"
  shows "consume region key_algorithm key rng = Inr (ConstBitStream_bytes payload, region')"
proof -
  from assms(3) have "takeWhile (\<lambda>x. x \<noteq> 0) (ps @ 0 # payload) = ps"
    by (rule takeWhile_nonzero)
  moreover from assms(3) have "dropWhile (\<lambda>x. x \<noteq> 0) (ps @ 0 # payload) = 0 # payload"
    by (rule dropWhile_nonzero)
  ultimately show ?thesis
    using assms(4) by (simp add: consume_eq [where key = key, OF assms(1,2)])
qed

theorem consume_returns_payload_witness:
  "consume one_mpi (Module RSA) (fixed_key [2, 1, 2, 3, 4, 5, 6, 7, 8, 0, 3, 0xAA, 0xBB]) counter
     = Inr (ConstBitStream_bytes [3, 0xAA, 0xBB], one_mpi\<lparr>pos := 24\<rparr>)"
proof -
  have k: "fixed_key [2, 1, 2, 3, 4, 5, 6, 7, 8, 0, 3, 0xAA, 0xBB]
      (map bytes_of_bits [bits_of_bytes [0x2A]])
      = Inr (2 # [1, 2, 3, 4, 5, 6, 7, 8] @ 0 # [3, 0xAA, 0xBB])"
    using fixed_key_one_mpi [of "[2, 1, 2, 3, 4, 5, 6, 7, 8, 0, 3, 0xAA, 0xBB]"] by simp
  have nz: "(0::byte) \<notin> set [1, 2, 3, 4, 5, 6, 7, 8]" by simp
  have len: "8 \<le> length [1, 2, 3, 4, 5, 6, 7, 8 :: byte]" by simp
  show ?thesis
    by (rule consume_returns_payload
        [where key = "fixed_key [2, 1, 2, 3, 4, 5, 6, 7, 8, 0, 3, 0xAA, 0xBB]",
          OF one_mpi_rsa k nz len])
qed


text \<open>
  C2.  When the decrypted buffer has a first byte other than \<open>0x02\<close>, or starts with
  \<open>0x02\<close> and fewer than 8 non-zero bytes before its first \<open>0x00\<close>, \<^verbatim>\<open>PKCS.consume\<close> raises
  nothing and returns a stream over the 19 bytes read from the random generator, a value
  that does not depend on the buffer.  The result is an ordinary return value, of the
  same shape as on well-formed padding.
\<close>

theorem consume_malformed_fallback:
  assumes "consume_encryption region key_algorithm = Inr (mpis, region')"
    and "key (map bytes_of_bits mpis) = Inr buf"
    and "(\<exists>b t. buf = b # t \<and> b \<noteq> 2) \<or>
         (\<exists>ps rest. buf = 2 # ps @ 0 # rest \<and> 0 \<notin> set ps \<and> length ps < 8)"
  shows "consume region key_algorithm key rng
           = Inr (ConstBitStream_bytes (Random_read rng 19), region')
         \<and> length (Random_read rng 19) = 19"
proof -
  have l: "length (Random_read rng 19) = 19"
    by (simp add: Random_read_def)
  from assms(3) show ?thesis
  proof
    assume "\<exists>b t. buf = b # t \<and> b \<noteq> 2"
    then obtain b t where "buf = b # t" "b \<noteq> 2" by blast
    with consume_eq [where key = key, OF assms(1), of b t rng] assms(2) l show ?thesis by simp
  next
    assume "\<exists>ps rest. buf = 2 # ps @ 0 # rest \<and> 0 \<notin> set ps \<and> length ps < 8"
    then obtain ps rest where b: "buf = 2 # ps @ 0 # rest" and nz: "0 \<notin> set ps"
      and short: "length ps < 8" by blast
    from nz have "takeWhile (\<lambda>x. x \<noteq> 0) (ps @ 0 # rest) = ps"
      by (rule takeWhile_nonzero)
    with consume_eq [where key = key, OF assms(1), of 2 "ps @ 0 # rest" rng] assms(2) b short l
    show ?thesis by simp
  qed
qed

theorem consume_malformed_fallback_witness:
  "consume one_mpi (Module RSA) (fixed_key [1, 1, 2, 3, 4, 5, 6, 7, 8, 0, 3, 0xAA, 0xBB]) counter
     = Inr (ConstBitStream_bytes (Random_read counter 19), one_mpi\<lparr>pos := 24\<rparr>)
   \<and> consume one_mpi (Module RSA) (fixed_key [2, 1, 2, 3, 0, 5, 6, 7, 8, 9, 3, 0xAA, 0xBB]) counter
     = Inr (ConstBitStream_bytes (Random_read counter 19), one_mpi\<lparr>pos := 24\<rparr>)
   \<and> Random_read counter 19 = [0, 1, 2, 3, 4, 5, 6, 7, 8, 9, 10, 11, 12, 13, 14, 15, 16, 17, 18]"
proof -
  let ?b1 = "[1, 1, 2, 3, 4, 5, 6, 7, 8, 0, 3, 0xAA, 0xBB] :: byte list"
  let ?b2 = "[2, 1, 2, 3, 0, 5, 6, 7, 8, 9, 3, 0xAA, 0xBB] :: byte list"
  have k1: "fixed_key ?b1 (map bytes_of_bits [bits_of_bytes [0x2A]]) = Inr ?b1"
    by (rule fixed_key_one_mpi)
  have k2: "fixed_key ?b2 (map bytes_of_bits [bits_of_bytes [0x2A]]) = Inr ?b2"
    by (rule fixed_key_one_mpi)
  have m1: "(\<exists>b t. ?b1 = b # t \<and> b \<noteq> 2) \<or>
         (\<exists>ps rest. ?b1 = 2 # ps @ 0 # rest \<and> 0 \<notin> set ps \<and> length ps < 8)"
    by simp
  have "?b2 = 2 # [1, 2, 3] @ 0 # [5, 6, 7, 8, 9, 3, 0xAA, 0xBB]
      \<and> (0::byte) \<notin> set [1, 2, 3] \<and> length [1, 2, 3 :: byte] < 8"
    by simp
  then have m2: "(\<exists>b t. ?b2 = b # t \<and> b \<noteq> 2) \<or>
         (\<exists>ps rest. ?b2 = 2 # ps @ 0 # rest \<and> 0 \<notin> set ps \<and> length ps < 8)"
    by blast
  have r: "Random_read counter 19
      = [0, 1, 2, 3, 4, 5, 6, 7, 8, 9, 10, 11, 12, 13, 14, 15, 16, 17, 18]"
    by (simp add: Random_read_def counter_def upt_rec)
  from consume_malformed_fallback [where key = "fixed_key ?b1", OF one_mpi_rsa k1 m1, of counter]
    consume_malformed_fallback [where key = "fixed_key ?b2", OF one_mpi_rsa k2 m2, of counter] r
  show ?thesis by simp
qed

text \<open>
  C3.  Whenever \<^verbatim>\<open>PKCS.consume\<close> returns, on well-formed and on malformed padding alike,
  the cursor of \<^verbatim>\<open>padded\<close> stands at the end of the decrypted buffer: for every non-empty
  buffer the function returns, with \<^verbatim>\<open>padded\<close> read to its end.  (On the empty buffer the
  first read raises \<open>ReadError\<close> and the function does not return.)
\<close>

theorem consume_reads_whole_buffer:
  assumes "consume_encryption region key_algorithm = Inr (mpis, region')"
    and "key (map bytes_of_bits mpis) = Inr buf"
  shows "(buf \<noteq> [] \<longrightarrow>
          (\<exists>padded decrypted.
             consume_body region key_algorithm key rng = Inr (region', padded, decrypted) \<and>
             consume region key_algorithm key rng = Inr (ConstBitStream_bytes decrypted, region') \<and>
             bits padded = bits_of_bytes buf \<and>
             pos padded = length (bits padded)))
       \<and> (buf = [] \<longrightarrow> consume region key_algorithm key rng = Inl ReadError)"
proof (rule conjI; rule impI)
  assume "buf \<noteq> []"
  then obtain b t where buf: "buf = b # t" by (cases buf) auto
  let ?d = "if b = 2 \<and> 0 \<in> set t \<and> 8 \<le> length (takeWhile (\<lambda>x. x \<noteq> 0) t)
            then tl (dropWhile (\<lambda>x. x \<noteq> 0) t) else Random_read rng 19"
  let ?p = "\<lparr>bits = bits_of_bytes buf, pos = 8 * length buf\<rparr>"
  have body: "consume_body region key_algorithm key rng = Inr (region', ?p, ?d)"
    unfolding consume_body_eq [where key = key, OF assms] using buf by simp
  then have "consume region key_algorithm key rng = Inr (ConstBitStream_bytes ?d, region')"
    by (simp add: consume_def and_then_Inr)
  moreover have "bits ?p = bits_of_bytes buf" "pos ?p = length (bits ?p)"
    by (simp_all add: length_bits_of_bytes)
  ultimately show "\<exists>padded decrypted.
             consume_body region key_algorithm key rng = Inr (region', padded, decrypted) \<and>
             consume region key_algorithm key rng = Inr (ConstBitStream_bytes decrypted, region') \<and>
             bits padded = bits_of_bytes buf \<and>
             pos padded = length (bits padded)"
    using body by blast
next
  assume "buf = []"
  then have "consume_body region key_algorithm key rng = Inl ReadError"
    unfolding consume_body_eq [where key = key, OF assms] by simp
  then show "consume region key_algorithm key rng = Inl ReadError"
    by (simp add: consume_def and_then_Inl)
qed

theorem consume_reads_whole_buffer_witness:
  "(\<exists>padded decrypted.
      consume_body one_mpi (Module RSA) (fixed_key [2, 1, 2, 3, 4, 5, 6, 7, 8, 0, 3, 0xAA]) counter
        = Inr (one_mpi\<lparr>pos := 24\<rparr>, padded, decrypted) \<and>
      bits padded = bits_of_bytes [2, 1, 2, 3, 4, 5, 6, 7, 8, 0, 3, 0xAA] \<and>
      pos padded = length (bits padded))
   \<and> (\<exists>padded decrypted.
      consume_body one_mpi (Module RSA) (fixed_key [1, 1, 2, 3, 4, 5, 6, 7, 8, 0, 3, 0xAA]) counter
        = Inr (one_mpi\<lparr>pos := 24\<rparr>, padded, decrypted) \<and>
      bits padded = bits_of_bytes [1, 1, 2, 3, 4, 5, 6, 7, 8, 0, 3, 0xAA] \<and>
      pos padded = length (bits padded))"
proof -
  let ?b1 = "[2, 1, 2, 3, 4, 5, 6, 7, 8, 0, 3, 0xAA] :: byte list"
  let ?b2 = "[1, 1, 2, 3, 4, 5, 6, 7, 8, 0, 3, 0xAA] :: byte list"
  have k1: "fixed_key ?b1 (map bytes_of_bits [bits_of_bytes [0x2A]]) = Inr ?b1"
    by (rule fixed_key_one_mpi)
  have k2: "fixed_key ?b2 (map bytes_of_bits [bits_of_bytes [0x2A]]) = Inr ?b2"
    by (rule fixed_key_one_mpi)
  have n1: "?b1 \<noteq> []" and n2: "?b2 \<noteq> []" by simp_all
  from consume_reads_whole_buffer [where key = "fixed_key ?b1", OF one_mpi_rsa k1, of counter] n1
    consume_reads_whole_buffer [where key = "fixed_key ?b2", OF one_mpi_rsa k2, of counter] n2
  show ?thesis by blast
qed


text \<open>
  C10.  When the decrypted buffer starts with \<open>0x02\<close> and holds no \<open>0x00\<close> byte after
  it, \<^verbatim>\<open>PKCS.consume\<close> raises nothing and returns the stream over the 19 random bytes:
  the search for the separator fails and leaves the cursor after byte 0, where it was,
  so the two positions differ by 0, which is less than 8.
\<close>

theorem consume_no_separator_fallback:
  assumes "consume_encryption region key_algorithm = Inr (mpis, region')"
    and "key (map bytes_of_bits mpis) = Inr (2 # t)"
    and "0 \<notin> set t"
  shows "consume region key_algorithm key rng
           = Inr (ConstBitStream_bytes (Random_read rng 19), region')
         \<and> length (Random_read rng 19) = 19
         \<and> find_bytealigned \<lparr>bits = bits_of_bytes (2 # t), pos = 8\<rparr> hex_00
             = \<lparr>bits = bits_of_bytes (2 # t), pos = 8\<rparr>"
proof -
  from assms(3) have "0 \<notin> set (2 # t)" by simp
  then have "find_bytealigned \<lparr>bits = bits_of_bytes (2 # t), pos = 8\<rparr> hex_00
      = \<lparr>bits = bits_of_bytes (2 # t), pos = 8\<rparr>"
    by (rule find_zero_missing)
  moreover have "length (Random_read rng 19) = 19"
    by (simp add: Random_read_def)
  moreover have "consume region key_algorithm key rng
      = Inr (ConstBitStream_bytes (Random_read rng 19), region')"
    using assms(3) by (simp add: consume_eq [where key = key, OF assms(1,2)])
  ultimately show ?thesis by simp
qed

theorem consume_no_separator_fallback_witness:
  "consume one_mpi (Module RSA) (fixed_key [2, 1, 2, 3, 4, 5, 6, 7, 8, 9, 3, 0xAA]) counter
     = Inr (ConstBitStream_bytes (Random_read counter 19), one_mpi\<lparr>pos := 24\<rparr>)"
proof -
  let ?b = "[2, 1, 2, 3, 4, 5, 6, 7, 8, 9, 3, 0xAA] :: byte list"
  have k: "fixed_key ?b (map bytes_of_bits [bits_of_bytes [0x2A]])
      = Inr (2 # [1, 2, 3, 4, 5, 6, 7, 8, 9, 3, 0xAA])"
    using fixed_key_one_mpi [of ?b] by simp
  have nz: "(0::byte) \<notin> set [1, 2, 3, 4, 5, 6, 7, 8, 9, 3, 0xAA]" by simp
  from consume_no_separator_fallback [where key = "fixed_key ?b", OF one_mpi_rsa k nz, of counter]
  show ?thesis by simp
qed

subsection \<open>The registry of key algorithms\<close>

text \<open>
  C6.  Looking a numeric code up in \<^verbatim>\<open>Algorithms.keys\<close> succeeds exactly for the codes
  1, 2, 3, 16 and 17, and then returns the registered module (RSA for 1, 2 and 3,
  ElGamal for 16, DSA for 17).  For every other code the lookup raises
  \<open>NotImplementedError\<close> carrying the name of the registry (\<^verbatim>\<open>Key algorithm\<close>) and the code:
  no default is returned.
\<close>

theorem keys_lookup_total:
  "(code \<in> {1, 2, 3, 16, 17} \<longrightarrow>
      (\<exists>handle. getitem keys (Number code) = Inr handle) \<and>
      getitem keys (Number code) =
        Inr (if code = 16 then ElGamal else if code = 17 then DSA else RSA))
   \<and> (code \<notin> {1, 2, 3, 16, 17} \<longrightarrow>
      getitem keys (Number code) = Inl (NotImplementedError ''Key algorithm'' (Number code)))"
  by (simp add: getitem_def keys_def)

theorem keys_lookup_total_witness:
  "getitem keys (Number 16) = Inr ElGamal
   \<and> getitem keys (Number 1) = Inr RSA
   \<and> getitem keys (Number 4) = Inl (NotImplementedError ''Key algorithm'' (Number 4))"
  using keys_lookup_total [of 16] keys_lookup_total [of 1] keys_lookup_total [of 4]
  by simp

end
